theory Spec2Isabelle
  imports Main "HOL-Library.Sublist"
begin

section \<open>The Doc intermediate representation\<close>

text \<open>
  The printer \<^verbatim>\<open>src/printer-remark.js\<close> builds its output with the builders of
  \<^verbatim>\<open>./doc-builders\<close>, a file of the repository that is not part of the sources at hand.
  The Doc variants and the builders are therefore taken from section 3.1 and 4.1 of the
  specification. A JavaScript string is a Doc of its own (\<open>Text\<close>).
\<close>

datatype line_kind = Soft | Normal | Hard | Literal

datatype doc =
    Text string
  | Concat "doc list"
  | Line line_kind
  | Group doc bool
  | Fill "doc list"
  | Indent doc
  | MarkerBlock string doc
  | IfBreak doc doc

text \<open>
  Every \<^verbatim>\<open>throw\<close> of the printer, and the contract violation of the fill builder, is a
  value of \<open>error\<close>. \<open>Raised\<close> stands for an error that the injected \<^verbatim>\<open>print\<close> callback
  raises on its own account.
\<close>

datatype error =
    UnknownType string
  | CannotIndentCode
  | MalformedFill "doc list"
  | Raised string

type_synonym 'a result = "error + 'a"

definition concat_doc :: "doc list \<Rightarrow> doc" where
  \<comment> \<open>Modelled from the spec: \<^verbatim>\<open>concat\<close> of doc-builders, "sequential composition, no
      separator"; "Concat of an empty sequence is a no-op Text("")".\<close>
  "concat_doc parts = (if parts = [] then Text [] else Concat parts)"

definition str_parts :: "string \<Rightarrow> doc list" where
  \<comment> \<open>A JavaScript string that is handed over where a sequence of Docs is expected: its
      \<^verbatim>\<open>length\<close> and its indexed items are those of its one-character strings.\<close>
  "str_parts s = map (\<lambda>c. Text [c]) s"

definition fill :: "doc list \<Rightarrow> doc result" where
  \<comment> \<open>Modelled from the spec: \<^verbatim>\<open>fill\<close> of doc-builders, "fails (construction-time contract
      violation) if given an even-length sequence".\<close>
  "fill parts = (if even (length parts) then Inl (MalformedFill parts) else Inr (Fill parts))"

definition group :: "doc \<Rightarrow> doc" where
  \<comment> \<open>Modelled from the spec: \<^verbatim>\<open>group\<close> of doc-builders; \<open>shouldBreak\<close> is set by a later pass.\<close>
  "group d = Group d False"

definition indent :: "doc \<Rightarrow> doc" where
  \<comment> \<open>Modelled from the spec: \<^verbatim>\<open>indent\<close> of doc-builders.\<close>
  "indent d = Indent d"

definition markerBlock :: "string \<Rightarrow> doc \<Rightarrow> doc" where
  \<comment> \<open>Modelled from the spec: \<^verbatim>\<open>markerBlock\<close> of doc-builders.\<close>
  "markerBlock marker d = MarkerBlock marker d"

definition ifBreak :: "doc \<Rightarrow> doc \<Rightarrow> doc" where
  \<comment> \<open>Modelled from the spec: \<^verbatim>\<open>ifBreak\<close> of doc-builders.\<close>
  "ifBreak whenBroken whenFlat = IfBreak whenBroken whenFlat"

definition hardline :: doc where
  \<comment> \<open>Modelled from the spec: one of "the four Line constants".\<close>
  "hardline = Line Hard"

definition line :: doc where
  \<comment> \<open>Modelled from the spec: one of "the four Line constants".\<close>
  "line = Line Normal"

definition softline :: doc where
  \<comment> \<open>Modelled from the spec: one of "the four Line constants".\<close>
  "softline = Line Soft"

definition hardlinex2 :: doc where
  "hardlinex2 = concat_doc [hardline, hardline]"

definition hardlinex3 :: doc where
  "hardlinex3 = concat_doc [hardline, hardline, hardline]"


section \<open>The AST and the configuration\<close>

text \<open>
  A node of the external parser: a tagged object. The fields are those that the printer
  reads; a field that a node does not carry is \<open>None\<close> where the printer tests it for
  truthiness, and is never read otherwise.
\<close>

datatype node = Node
  (n_type: string)
  (n_value: string)
  (n_lang: "string option")
  (n_ordered: "bool option")
  (n_identifier: string)
  (n_url: string)
  (n_title: "string option")
  (n_alt: "string option")
  (n_referenceType: string)
  (n_children: "node list")

text \<open>What \<^verbatim>\<open>path.getValue()\<close> may hold: nothing, a string, or a node.\<close>

datatype ast = Null | Str string | Obj node

fun set_children :: "node list \<Rightarrow> node \<Rightarrow> node" where
  "set_children cs (Node t v l ord i u ti a r _) = Node t v l ord i u ti a r cs"

fun set_value :: "string \<Rightarrow> node \<Rightarrow> node" where
  "set_value v (Node t _ l ord i u ti a r cs) = Node t v l ord i u ti a r cs"

text \<open>
  \<^verbatim>\<open>remarkOptions\<close>, with the two settings that the code case reads and the literal
  leaves undefined (\<^verbatim>\<open>listItemIndent\<close>, \<^verbatim>\<open>pedantic\<close>).
\<close>

record remark_options =
  commonmark :: bool
  emphasis :: string
  strong :: string
  fence :: char
  fences :: bool
  setext :: bool
  closeAtx :: bool
  listItemIndent :: "string option"
  pedantic :: bool

definition remarkOptions :: remark_options where
  "remarkOptions = \<lparr> commonmark = False, emphasis = ''*'', strong = ''*'',
     fence = CHR 0x60, fences = True, setext = False, closeAtx = False,
     listItemIndent = None, pedantic = False \<rparr>"

text \<open>
  The capabilities of remark-stringify that the printer calls: \<^verbatim>\<open>encode\<close>, \<^verbatim>\<open>escape\<close>,
  \<^verbatim>\<open>enclose-uri\<close>, \<^verbatim>\<open>enclose-title\<close> and the visitors of the compiler. They are
  third-party functions and stay parameters.
\<close>

record env =
  opts :: remark_options
  encode :: "string \<Rightarrow> string"
  escape :: "string \<Rightarrow> string"
  uri :: "string \<Rightarrow> string"
  enclose_title :: "string \<Rightarrow> string"
  visit :: "node \<Rightarrow> string"

text \<open>
  The injected \<^verbatim>\<open>print\<close> callback: given the parent and the child it prints, it returns
  the child's Doc or raises, and leaves the child in a possibly mutated state.
\<close>

type_synonym printfn = "node \<Rightarrow> node \<Rightarrow> doc result \<times> node"


section \<open>Strings\<close>

text \<open>
  Characters are the code units below 256. \<^verbatim>\<open>\s\<close> matches tab, line feed, vertical tab,
  form feed, carriage return, space and no-break space there.
\<close>

definition isSpace :: "char \<Rightarrow> bool" where
  "isSpace c = (c \<in> set [CHR 0x09, CHR 0x0A, CHR 0x0B, CHR 0x0C, CHR 0x0D, CHR 0x20, CHR 0xA0])"

definition trimStart :: "string \<Rightarrow> string" where
  \<comment> \<open>\<^verbatim>\<open>value.replace(/^\s+/, "")\<close>\<close>
  "trimStart s = dropWhile isSpace s"

fun split_loop :: "string \<Rightarrow> bool \<Rightarrow> string \<Rightarrow> string list" where
  "split_loop cur insep [] = [cur]"
| "split_loop cur insep (c # cs) =
     (if isSpace c then
        (if insep then split_loop cur True cs else cur # split_loop [] True cs)
      else split_loop (cur @ [c]) False cs)"

definition split_ws :: "string \<Rightarrow> string list" where
  \<comment> \<open>\<^verbatim>\<open>text.split(/\s+/g)\<close>: the pieces between the maximal runs of whitespace.\<close>
  "split_ws s = split_loop [] False s"

definition lowerChar :: "char \<Rightarrow> char" where
  "lowerChar c = (let k = (of_char c :: nat) in
     if (65 \<le> k \<and> k \<le> 90) \<or> (192 \<le> k \<and> k \<le> 222 \<and> k \<noteq> 215) then char_of (k + 32) else c)"

definition toLowerCase :: "string \<Rightarrow> string" where
  "toLowerCase s = map lowerChar s"

fun streak_loop :: "char \<Rightarrow> nat \<Rightarrow> nat \<Rightarrow> string \<Rightarrow> nat" where
  "streak_loop c cnt mx [] = mx"
| "streak_loop c cnt mx (x # xs) =
     (if x = c then streak_loop c (Suc cnt) (max mx (Suc cnt)) xs
      else streak_loop c 0 mx xs)"

definition streak :: "string \<Rightarrow> char \<Rightarrow> nat" where
  \<comment> \<open>Modelled from the spec: the package longest-streak is not part of the sources; the
      specification reads it as the "longest run of marker char in value". The loop keeps
      the length of the current run and the maximum seen so far.\<close>
  "streak v c = streak_loop c 0 0 v"

fun FENCE_test :: "string \<Rightarrow> bool" where
  \<comment> \<open>\<^verbatim>\<open>/([`~])\1{2}/.test(value)\<close>: a backtick or a tilde followed twice by itself.\<close>
  "FENCE_test (a # b # c # rest) =
     (((a = CHR 0x60 \<or> a = CHR 0x7E) \<and> b = a \<and> c = a) \<or> FENCE_test (b # c # rest))"
| "FENCE_test _ = False"


section \<open>The helpers of the printer\<close>

fun intersperse :: "'a \<Rightarrow> 'a list \<Rightarrow> 'a list" where
  "intersperse sep [] = []"
| "intersperse sep [x] = [x]"
| "intersperse sep (x # y # ys) = x # sep # intersperse sep (y # ys)"

definition textToWords :: "env \<Rightarrow> string \<Rightarrow> bool \<Rightarrow> bool \<Rightarrow> doc list" where
  \<comment> \<open>The empty text gives the empty string, which every caller uses as a sequence.\<close>
  "textToWords e text shouldEncode shouldEscape =
     (if text = [] then str_parts []
      else intersperse line
        (map (\<lambda>word.
           let w1 = (if shouldEscape then escape e word else word);
               w2 = (if shouldEncode then encode e w1 else w1)
           in Text w2) (split_ws text)))"

definition printWrappingText :: "env \<Rightarrow> string \<Rightarrow> bool \<Rightarrow> bool \<Rightarrow> doc result" where
  "printWrappingText e text shouldEncode shouldEscape =
     fill (textToWords e text shouldEncode shouldEscape)"

definition flattenStep :: "doc \<Rightarrow> doc list" where
  \<comment> \<open>The body of the loop of \<^verbatim>\<open>flattenOnce\<close>: what one element contributes to \<^verbatim>\<open>res\<close>.\<close>
  "flattenStep childDoc = (case childDoc of Concat parts \<Rightarrow> parts | _ \<Rightarrow> [childDoc])"

fun flattenOnce :: "doc list \<Rightarrow> doc list" where
  "flattenOnce [] = []"
| "flattenOnce (childDoc # docs) = flattenStep childDoc @ flattenOnce docs"

definition printLabel :: "env \<Rightarrow> node \<Rightarrow> doc result" where
  "printLabel e n =
     (let type = n_referenceType n in
      case (if type = ''full'' then printWrappingText e (n_identifier n) False False
            else Inr (Text [])) of
        Inl err \<Rightarrow> Inl err
      | Inr v \<Rightarrow> Inr (if type = ''shortcut'' then v
                       else concat_doc [Text ''['', v, Text '']'']))"

text \<open>
  \<^verbatim>\<open>path.map(print, "children")\<close>: the children are printed in order; the first error stops
  the loop, and the children printed so far keep what printing did to them.
\<close>

fun pathMap :: "printfn \<Rightarrow> node \<Rightarrow> node list \<Rightarrow> doc list result \<times> node list" where
  "pathMap print p [] = (Inr [], [])"
| "pathMap print p (c # cs) =
     (case print p c of
        (Inl err, c') \<Rightarrow> (Inl err, c' # cs)
      | (Inr d, c') \<Rightarrow>
          (case pathMap print p cs of
             (Inl err, cs') \<Rightarrow> (Inl err, c' # cs')
           | (Inr ds, cs') \<Rightarrow> (Inr (d # ds), c' # cs')))"

definition truthy :: "string option \<Rightarrow> bool" where
  "truthy s = (case s of None \<Rightarrow> False | Some v \<Rightarrow> v \<noteq> [])"

definition orEmpty :: "string option \<Rightarrow> string" where
  \<comment> \<open>\<^verbatim>\<open>s || ""\<close>\<close>
  "orEmpty s = (case s of None \<Rightarrow> [] | Some v \<Rightarrow> v)"

definition separator :: "node \<Rightarrow> node \<Rightarrow> doc" where
  \<comment> \<open>What the loop of \<^verbatim>\<open>printBlock\<close> pushes between \<^verbatim>\<open>prev\<close> and \<^verbatim>\<open>child\<close>.\<close>
  "separator prev child =
     (if n_type child = n_type prev \<and> n_type prev = ''list'' then
        (if n_ordered prev = n_ordered child then hardlinex3 else hardlinex2)
      else if n_type prev = ''list'' \<and> n_type child = ''code'' \<and> \<not> truthy (n_lang child)
        then hardlinex3
      else hardlinex2)"

fun printBlock_each :: "printfn \<Rightarrow> node \<Rightarrow> node option \<Rightarrow> node list \<Rightarrow> doc list result \<times> node list" where
  "printBlock_each print p prev [] = (Inr [], [])"
| "printBlock_each print p prev (child # cs) =
     (let pushed = (case prev of None \<Rightarrow> [] | Some pv \<Rightarrow> [separator pv child]) in
      case print p child of
        (Inl err, child') \<Rightarrow> (Inl err, child' # cs)
      | (Inr d, child') \<Rightarrow>
          (case printBlock_each print p (Some child') cs of
             (Inl err, cs') \<Rightarrow> (Inl err, child' # cs')
           | (Inr ds, cs') \<Rightarrow> (Inr (pushed @ d # ds), child' # cs')))"

definition printBlock :: "printfn \<Rightarrow> node \<Rightarrow> doc result \<times> node" where
  "printBlock print n =
     (case printBlock_each print n None (n_children n) of
        (Inl err, cs') \<Rightarrow> (Inl err, set_children cs' n)
      | (Inr ds, cs') \<Rightarrow> (Inr (concat_doc ds), set_children cs' n))"

definition printBlockWithLeftMarkers :: "printfn \<Rightarrow> node \<Rightarrow> string \<Rightarrow> doc result \<times> node" where
  "printBlockWithLeftMarkers print n marker =
     (case printBlock print n of
        (Inl err, n') \<Rightarrow> (Inl err, n')
      | (Inr b, n') \<Rightarrow> (Inr (markerBlock marker b), n'))"

definition printQuoted :: "printfn \<Rightarrow> node \<Rightarrow> string \<Rightarrow> string \<Rightarrow> doc result \<times> node" where
  "printQuoted print n leftQuote rightQuote =
     (case pathMap print n (n_children n) of
        (Inl err, cs') \<Rightarrow> (Inl err, set_children cs' n)
      | (Inr ds, cs') \<Rightarrow>
          (Inr (concat_doc ([Text leftQuote] @ ds @ [Text rightQuote])), set_children cs' n))"


section \<open>The dispatcher\<close>

definition printBreak :: "env \<Rightarrow> doc" where
  \<comment> \<open>\<^verbatim>\<open>remarkOptions.commonmark ? concat("\\", hardline) : hardline\<close>. In the first branch
      the builder is called with the string of the backslash where it takes the sequence
      of parts. \<^verbatim>\<open>remarkOptions\<close> sets commonmark to false, so the printer takes the second
      branch.\<close>
  "printBreak e =
     (if commonmark (opts e) then concat_doc (str_parts [CHR 0x5C]) else hardline)"

definition printCode :: "env \<Rightarrow> node option \<Rightarrow> node \<Rightarrow> doc result" where
  "printCode e parent n =
     (let v = n_value n;
          marker = fence (opts e);
          lang = encode e (orEmpty (n_lang n))
      in
      if lang = [] \<and> \<not> fences (opts e) \<and> v \<noteq> [] then
        (if (case parent of None \<Rightarrow> False | Some p \<Rightarrow> n_type p = ''listItem'')
             \<and> listItemIndent (opts e) \<noteq> Some ''tab''
             \<and> pedantic (opts e)
         then Inl CannotIndentCode
         else Inr (indent (Text v)))
      else
        (let fence0 = streak v marker + 1;
             v' = (if FENCE_test v then indent (Text v) else Text v);
             fence1 = replicate (max fence0 3) marker
         in Inr (concat_doc [Text fence1, Text lang, hardline, v', hardline, Text fence1])))"

definition idAndUrlParts :: "env \<Rightarrow> node \<Rightarrow> doc list" where
  "idAndUrlParts e n =
     textToWords e (''['' @ toLowerCase (n_identifier n) @ '']:'') False False
       @ [line, Text (uri e (n_url n))]"

definition printDefinition :: "env \<Rightarrow> node \<Rightarrow> doc result" where
  "printDefinition e n =
     (case fill (idAndUrlParts e n) of
        Inl err \<Rightarrow> Inl err
      | Inr f1 \<Rightarrow>
          (if truthy (n_title n) then
             (case fill (textToWords e (enclose_title e (orEmpty (n_title n))) False False) of
                Inl err \<Rightarrow> Inl err
              | Inr f2 \<Rightarrow> Inr (group (indent (concat_doc [f1, line, f2]))))
           else Inr (group (indent (concat_doc [f1])))))"

definition idTagParts :: "env \<Rightarrow> node \<Rightarrow> doc list" where
  "idTagParts e n = textToWords e (''[^'' @ toLowerCase (n_identifier n) @ '']:'') False False"

definition printFootnoteDefinition :: "env \<Rightarrow> printfn \<Rightarrow> node \<Rightarrow> doc result \<times> node" where
  "printFootnoteDefinition e print n =
     (case printBlock print n of
        (Inl err, n') \<Rightarrow> (Inl err, n')
      | (Inr content, n') \<Rightarrow>
          (case fill (idTagParts e n) of
             Inl err \<Rightarrow> (Inl err, n')
           | Inr f1 \<Rightarrow>
               (case fill [line, content] of
                  Inl err \<Rightarrow> (Inl err, n')
                | Inr f2 \<Rightarrow>
                    (Inr (group (concat_doc [f1, ifBreak softline (Text []), indent f2])), n'))))"

definition printFootnote :: "printfn \<Rightarrow> node \<Rightarrow> doc result \<times> node" where
  "printFootnote print n =
     (case pathMap print n (n_children n) of
        (Inl err, cs') \<Rightarrow> (Inl err, set_children cs' n)
      | (Inr childDocs, cs') \<Rightarrow>
          (case fill (flattenOnce (flattenOnce childDocs)) of
             Inl err \<Rightarrow> (Inl err, set_children cs' n)
           | Inr f \<Rightarrow> (Inr (concat_doc [Text ''[^'', f, Text '']'']), set_children cs' n)))"

definition printImageReference :: "env \<Rightarrow> node \<Rightarrow> doc result" where
  "printImageReference e n =
     (case printWrappingText e (orEmpty (n_alt n)) True False of
        Inl err \<Rightarrow> Inl err
      | Inr a \<Rightarrow>
          (case printLabel e n of
             Inl err \<Rightarrow> Inl err
           | Inr l \<Rightarrow> Inr (concat_doc [Text ''!['', a, Text '']'', l])))"

definition printText :: "env \<Rightarrow> node \<Rightarrow> doc" where
  "printText e n = concat_doc (textToWords e (n_value n) True True)"

definition trimFirstText :: "node list \<Rightarrow> node list" where
  \<comment> \<open>The assignment at the head of the paragraph case.\<close>
  "trimFirstText cs =
     (case cs of
        [] \<Rightarrow> []
      | c # rest \<Rightarrow>
          (if n_type c = ''text'' then set_value (trimStart (n_value c)) c # rest else c # rest))"

definition printParagraph :: "printfn \<Rightarrow> node \<Rightarrow> doc result \<times> node" where
  "printParagraph print n =
     (let n1 = set_children (trimFirstText (n_children n)) n in
      case pathMap print n1 (n_children n1) of
        (Inl err, cs') \<Rightarrow> (Inl err, set_children cs' n1)
      | (Inr ds, cs') \<Rightarrow>
          (let childDocs = intersperse softline ds in
           (fill (flattenOnce (flattenOnce childDocs)), set_children cs' n1)))"

definition handledTypes :: "string list" where
  \<comment> \<open>The labels of the \<^verbatim>\<open>switch\<close>, in the order of the source.\<close>
  "handledTypes = [''root'', ''blockquote'', ''break'', ''code'', ''definition'', ''delete'',
     ''footnoteDefinition'', ''footnoteReference'', ''footnote'', ''heading'', ''html'',
     ''imageReference'', ''text'', ''paragraph'', ''emphasis'', ''strong'']"

definition printNode :: "env \<Rightarrow> printfn \<Rightarrow> node option \<Rightarrow> node \<Rightarrow> doc result \<times> node" where
  \<comment> \<open>The \<^verbatim>\<open>switch (n.type)\<close> of \<^verbatim>\<open>genericPrint\<close>.\<close>
  "printNode e print parent n =
     (let t = n_type n in
      if t = ''root'' then
        (case printBlock print n of
           (Inl err, n') \<Rightarrow> (Inl err, n')
         | (Inr b, n') \<Rightarrow> (Inr (concat_doc [b, hardline]), n'))
      else if t = ''blockquote'' then printBlockWithLeftMarkers print n ''> ''
      else if t = ''break'' then (Inr (printBreak e), n)
      else if t = ''code'' then (printCode e parent n, n)
      else if t = ''definition'' then (printDefinition e n, n)
      else if t = ''delete'' then printQuoted print n ''~~'' ''~~''
      else if t = ''footnoteDefinition'' then printFootnoteDefinition e print n
      else if t = ''footnoteReference'' then (Inr (Text (visit e n)), n)
      else if t = ''footnote'' then printFootnote print n
      else if t = ''heading'' then (Inr (Text (visit e n)), n)
      else if t = ''html'' then (Inr (Text (visit e n)), n)
      else if t = ''imageReference'' then (printImageReference e n, n)
      else if t = ''text'' then (Inr (printText e n), n)
      else if t = ''paragraph'' then printParagraph print n
      else if t = ''emphasis'' then
        (let marker = emphasis (opts e) in printQuoted print n marker marker)
      else if t = ''strong'' then
        (let marker = strong (opts e) @ strong (opts e) in printQuoted print n marker marker)
      else (Inl (UnknownType t), n))"

definition genericPrint :: "env \<Rightarrow> printfn \<Rightarrow> node option \<Rightarrow> ast \<Rightarrow> doc result \<times> ast" where
  "genericPrint e print parent x =
     (case x of
        Null \<Rightarrow> (Inr (Text []), Null)
      | Str s \<Rightarrow> (Inr (Text s), Str s)
      | Obj n \<Rightarrow> (case printNode e print parent n of (r, n') \<Rightarrow> (r, Obj n')))"


section \<open>Printing a whole tree\<close>

text \<open>
  The callback that the driver injects prints a child with the dispatcher itself. Its
  recursion ends because the dispatcher calls \<open>print\<close> on children only, which the
  congruence rule below records.
\<close>

fun node_count :: "node \<Rightarrow> nat" where
  "node_count (Node t v l ord i u ti a r cs) = Suc (sum_list (map node_count cs))"

lemma node_count_set_value [simp]: "node_count (set_value v c) = node_count c"
  by (cases c) simp

lemma n_children_set_children [simp]: "n_children (set_children cs n) = cs"
  by (cases n) simp

lemma node_count_child: "c \<in> set (n_children n) \<Longrightarrow> node_count c < node_count n"
  by (cases n) (auto simp: less_Suc_eq_le member_le_sum_list)

lemma node_count_trimmed_child:
  assumes "c \<in> set (trimFirstText (n_children n))"
  shows "node_count c < node_count n"
proof -
  have "\<exists>c0. c0 \<in> set (n_children n) \<and> node_count c = node_count c0"
  proof (cases "n_children n")
    case Nil
    then show ?thesis using assms by (simp add: trimFirstText_def)
  next
    case (Cons x xs)
    then show ?thesis using assms by (auto simp: trimFirstText_def split: if_splits)
  qed
  then show ?thesis using node_count_child by metis
qed

lemma pathMap_cong:
  "(\<And>c. c \<in> set cs \<Longrightarrow> print p c = print' p c) \<Longrightarrow> pathMap print p cs = pathMap print' p cs"
  by (induction cs) (auto split: prod.splits sum.splits)

lemma printBlock_each_cong:
  "(\<And>c. c \<in> set cs \<Longrightarrow> print p c = print' p c) \<Longrightarrow>
     printBlock_each print p prev cs = printBlock_each print' p prev cs"
proof (induction cs arbitrary: prev)
  case Nil
  then show ?case by simp
next
  case (Cons c cs)
  have 1: "print p c = print' p c" using Cons.prems by simp
  have 2: "\<And>pv. printBlock_each print p pv cs = printBlock_each print' p pv cs"
    using Cons by simp
  show ?case by (simp add: 1 2 split: prod.splits sum.splits)
qed

lemma printNode_cong [fundef_cong]:
  assumes "e = e'" "parent = parent'" "n = n'"
    and "\<And>p c. node_count c < node_count n' \<Longrightarrow> print p c = print' p c"
  shows "printNode e print parent n = printNode e' print' parent' n'"
proof -
  have pm: "\<And>p. pathMap print p (n_children n') = pathMap print' p (n_children n')"
    by (rule pathMap_cong) (simp add: assms(4) node_count_child)
  have pm2: "\<And>p. pathMap print p (trimFirstText (n_children n'))
               = pathMap print' p (trimFirstText (n_children n'))"
    by (rule pathMap_cong) (simp add: assms(4) node_count_trimmed_child)
  have pb: "\<And>p prev. printBlock_each print p prev (n_children n')
               = printBlock_each print' p prev (n_children n')"
    by (rule printBlock_each_cong) (simp add: assms(4) node_count_child)
  show ?thesis
    unfolding assms(1-3) printNode_def printBlock_def printBlockWithLeftMarkers_def
      printQuoted_def printFootnoteDefinition_def printFootnote_def printParagraph_def
    by (simp add: pm pm2 pb Let_def)
qed

function printChild :: "env \<Rightarrow> node \<Rightarrow> node \<Rightarrow> doc result \<times> node" where
  \<comment> \<open>Modelled from the spec: the driver that injects \<^verbatim>\<open>print\<close> is not part of the sources;
      "each node-specific case can recursively print its children without knowing the
      dispatcher", so the callback is \<^verbatim>\<open>genericPrint\<close> at the child's path.\<close>
  "printChild e p c = printNode e (printChild e) (Some p) c"
  by pat_completeness auto
termination
  by (relation "measure (\<lambda>(e, p, c). node_count c)") auto

definition transform :: "env \<Rightarrow> ast \<Rightarrow> doc result \<times> ast" where
  \<comment> \<open>Modelled from the spec: the Transformer applied to the root path, which has no parent.\<close>
  "transform e x = genericPrint e (printChild e) None x"


section \<open>Sample inputs\<close>

text \<open>
  Concrete inputs for the worked examples: configurations (the options of the source with
  transparent capabilities, and variants with one setting changed), nodes with the fields
  that a case does not read left empty, and a callback that prints every child as its
  type and leaves it alone.
\<close>

definition stdEnv :: env where
  "stdEnv = \<lparr> opts = remarkOptions, encode = (\<lambda>s. s), escape = (\<lambda>s. s), uri = (\<lambda>s. s),
     enclose_title = (\<lambda>s. [CHR 0x22] @ s @ [CHR 0x22]), visit = n_value \<rparr>"

definition mkNode :: "string \<Rightarrow> string \<Rightarrow> node list \<Rightarrow> node" where
  "mkNode t v cs = Node t v None None [] [] None None [] cs"

definition quietPrint :: printfn where
  "quietPrint p c = (Inr (Text (n_type c)), c)"


definition pedanticEnv :: env where
  "pedanticEnv = stdEnv \<lparr> opts := remarkOptions \<lparr> fences := False, pedantic := True \<rparr> \<rparr>"

definition backticks :: "nat \<Rightarrow> string" where
  "backticks k = replicate k (CHR 0x60)"

definition mkList :: "bool \<Rightarrow> node" where
  "mkList b = Node ''list'' [] None (Some b) [] [] None None [] []"

definition sampleBlock :: node where
  "sampleBlock = mkNode ''root'' []
     [mkList True, mkList True, mkList False, mkNode ''code'' ''x'' [], mkNode ''paragraph'' [] []]"

definition sampleFootnote :: node where
  "sampleFootnote = mkNode ''footnote'' [] [mkNode ''emphasis'' [] [mkNode ''text'' ''a'' []]]"

definition sampleParagraph :: node where
  "sampleParagraph = mkNode ''paragraph'' [] [mkNode ''text'' ''  a b'' [], mkNode ''text'' ''c'' []]"

section \<open>Where an error comes from\<close>

text \<open>
  The errors that the dispatcher raises on its own account, apart from the unknown type:
  the indented-code error and the rejection by the fill builder.
\<close>

definition ownError :: "error \<Rightarrow> bool" where
  "ownError err = (case err of CannotIndentCode \<Rightarrow> True | MalformedFill _ \<Rightarrow> True | _ \<Rightarrow> False)"

lemma fill_error: "fill xs = Inl err \<Longrightarrow> err = MalformedFill xs"
  by (simp add: fill_def split: if_splits)

lemma pathMap_error:
  "fst (pathMap print p cs) = Inl err \<Longrightarrow> \<exists>c. fst (print p c) = Inl err"
proof (induction cs)
  case Nil then show ?case by simp
next
  case (Cons c cs)
  show ?case
  proof (cases "print p c")
    case (Pair r c')
    show ?thesis
    proof (cases r)
      case (Inl a)
      then show ?thesis using Cons.prems Pair by (auto intro: exI[of _ c])
    next
      case (Inr d)
      then have "fst (pathMap print p cs) = Inl err"
        using Cons.prems Pair by (auto split: prod.splits sum.splits)
      then show ?thesis using Cons.IH by blast
    qed
  qed
qed

lemma printBlock_each_error:
  "fst (printBlock_each print p prev cs) = Inl err \<Longrightarrow> \<exists>c. fst (print p c) = Inl err"
proof (induction cs arbitrary: prev)
  case Nil then show ?case by simp
next
  case (Cons c cs)
  show ?case
  proof (cases "print p c")
    case (Pair r c')
    show ?thesis
    proof (cases r)
      case (Inl a)
      then show ?thesis using Cons.prems Pair by (auto intro: exI[of _ c])
    next
      case (Inr d)
      then have "fst (printBlock_each print p (Some c') cs) = Inl err"
        using Cons.prems Pair by (auto split: prod.splits sum.splits)
      then show ?thesis using Cons.IH by blast
    qed
  qed
qed

lemma printBlock_error:
  "fst (printBlock print n) = Inl err \<Longrightarrow> \<exists>p c. fst (print p c) = Inl err"
  using printBlock_each_error[of print n None "n_children n" err]
  by (auto simp: printBlock_def split: prod.splits sum.splits)

lemma ownError_fill: "fill xs = Inl err \<Longrightarrow> ownError err"
  by (auto dest: fill_error simp: ownError_def)

lemma printQuoted_error:
  "fst (printQuoted print n l r) = Inl err \<Longrightarrow> \<exists>p c. fst (print p c) = Inl err"
  using pathMap_error[of print n "n_children n" err]
  by (auto simp: printQuoted_def split: prod.splits sum.splits)

lemma printFootnote_error:
  "fst (printFootnote print n) = Inl err \<Longrightarrow> ownError err \<or> (\<exists>p c. fst (print p c) = Inl err)"
  using pathMap_error[of print n "n_children n" err]
  by (auto simp: printFootnote_def split: prod.splits sum.splits dest: ownError_fill)

lemma printParagraph_error:
  "fst (printParagraph print n) = Inl err \<Longrightarrow> ownError err \<or> (\<exists>p c. fst (print p c) = Inl err)"
  using pathMap_error[of print "set_children (trimFirstText (n_children n)) n" "trimFirstText (n_children n)" err]
  by (auto simp: printParagraph_def Let_def split: prod.splits sum.splits dest: ownError_fill)

lemma printFootnoteDefinition_error:
  "fst (printFootnoteDefinition e print n) = Inl err \<Longrightarrow> ownError err \<or> (\<exists>p c. fst (print p c) = Inl err)"
  using printBlock_error[of print n err]
  by (auto simp: printFootnoteDefinition_def split: prod.splits sum.splits dest: ownError_fill)

lemma printCode_error: "printCode e parent n = Inl err \<Longrightarrow> ownError err"
  by (auto simp: printCode_def Let_def ownError_def split: if_splits)

lemma printDefinition_error: "printDefinition e n = Inl err \<Longrightarrow> ownError err"
  by (auto simp: printDefinition_def split: sum.splits if_splits dest: ownError_fill)

lemma printImageReference_error: "printImageReference e n = Inl err \<Longrightarrow> ownError err"
  by (auto simp: printImageReference_def printLabel_def printWrappingText_def Let_def
      split: sum.splits if_splits dest: ownError_fill)

lemma printNode_handled_error:
  assumes "n_type n \<in> set handledTypes" "fst (printNode e print parent n) = Inl err"
  shows "ownError err \<or> (\<exists>p c. fst (print p c) = Inl err)"
proof -
  consider "n_type n = ''root''" | "n_type n = ''blockquote''" | "n_type n = ''break''"
    | "n_type n = ''code''" | "n_type n = ''definition''" | "n_type n = ''delete''"
    | "n_type n = ''footnoteDefinition''" | "n_type n = ''footnoteReference''"
    | "n_type n = ''footnote''" | "n_type n = ''heading''" | "n_type n = ''html''"
    | "n_type n = ''imageReference''" | "n_type n = ''text''" | "n_type n = ''paragraph''"
    | "n_type n = ''emphasis''" | "n_type n = ''strong''"
    using assms(1) unfolding handledTypes_def by auto
  then show ?thesis
  proof cases
    case 1
    then show ?thesis using assms(2) printBlock_error[of print n err]
      by (auto simp: printNode_def split: prod.splits sum.splits)
  next
    case 2
    then show ?thesis using assms(2) printBlock_error[of print n err]
      by (auto simp: printNode_def printBlockWithLeftMarkers_def split: prod.splits sum.splits)
  next
    case 3
    then show ?thesis using assms(2) by (simp add: printNode_def)
  next
    case 4
    then show ?thesis using assms(2) printCode_error[of e parent n err] by (simp add: printNode_def)
  next
    case 5
    then show ?thesis using assms(2) printDefinition_error[of e n err] by (simp add: printNode_def)
  next
    case 6
    then show ?thesis using assms(2) printQuoted_error[of print n _ _ err] by (simp add: printNode_def)
  next
    case 7
    then show ?thesis using assms(2) printFootnoteDefinition_error[of e print n err]
      by (simp add: printNode_def)
  next
    case 8
    then show ?thesis using assms(2) by (simp add: printNode_def)
  next
    case 9
    then show ?thesis using assms(2) printFootnote_error[of print n err] by (simp add: printNode_def)
  next
    case 10
    then show ?thesis using assms(2) by (simp add: printNode_def)
  next
    case 11
    then show ?thesis using assms(2) by (simp add: printNode_def)
  next
    case 12
    then show ?thesis using assms(2) printImageReference_error[of e n err] by (simp add: printNode_def)
  next
    case 13
    then show ?thesis using assms(2) by (simp add: printNode_def)
  next
    case 14
    then show ?thesis using assms(2) printParagraph_error[of print n err] by (simp add: printNode_def)
  next
    case 15
    then show ?thesis using assms(2) printQuoted_error[of print n _ _ err]
      by (simp add: printNode_def Let_def)
  next
    case 16
    then show ?thesis using assms(2) printQuoted_error[of print n _ _ err]
      by (simp add: printNode_def Let_def)
  qed
qed

lemma printNode_unhandled:
  "n_type n \<notin> set handledTypes \<Longrightarrow> printNode e print parent n = (Inl (UnknownType (n_type n)), n)"
  by (simp add: printNode_def handledTypes_def Let_def)

lemma printChild_unknown_unhandled:
  "fst (printChild e p c) = Inl (UnknownType t) \<Longrightarrow> t \<notin> set handledTypes"
proof (induction e p c rule: printChild.induct)
  case (1 e p c)
  define print' :: printfn where
    "print' = (\<lambda>q d. if node_count d < node_count c then printChild e q d else (Inr (Text []), d))"
  have same: "printNode e (printChild e) (Some p) c = printNode e print' (Some p) c"
    by (rule printNode_cong) (simp_all add: print'_def del: printChild.simps)
  have unfold: "printChild e p c = printNode e (printChild e) (Some p) c"
    by (rule printChild.simps)
  have err: "fst (printNode e print' (Some p) c) = Inl (UnknownType t)"
    using "1.prems" by (simp only: unfold same)
  show ?case
  proof (cases "n_type c \<in> set handledTypes")
    case True
    from printNode_handled_error[OF True err]
    obtain q d where qd: "fst (print' q d) = Inl (UnknownType t)"
      by (auto simp: ownError_def)
    then have small: "node_count d < node_count c"
      by (auto simp: print'_def split: if_splits simp del: printChild.simps)
    then have "fst (printChild e q d) = Inl (UnknownType t)"
      using qd by (simp add: print'_def del: printChild.simps)
    with small show ?thesis by (rule "1.IH")
  next
    case False
    then show ?thesis using err by (simp add: printNode_unhandled)
  qed
qed

lemma transform_Obj: "fst (transform e (Obj n)) = fst (printNode e (printChild e) None n)"
  by (cases "printNode e (printChild e) None n")
     (simp add: transform_def genericPrint_def del: printChild.simps)

lemma transform_unknown_unhandled:
  assumes "fst (transform e x) = Inl (UnknownType t)"
  shows "t \<notin> set handledTypes"
proof (cases x)
  case Null
  then show ?thesis using assms by (simp add: transform_def genericPrint_def)
next
  case (Str s)
  then show ?thesis using assms by (simp add: transform_def genericPrint_def)
next
  case (Obj n)
  then have err: "fst (printNode e (printChild e) None n) = Inl (UnknownType t)"
    using assms by (simp add: transform_Obj del: printChild.simps)
  show ?thesis
  proof (cases "n_type n \<in> set handledTypes")
    case True
    from printNode_handled_error[OF True err]
    obtain q d where "fst (printChild e q d) = Inl (UnknownType t)"
      by (auto simp: ownError_def simp del: printChild.simps)
    then show ?thesis by (rule printChild_unknown_unhandled)
  next
    case False
    then show ?thesis using err by (simp add: printNode_unhandled)
  qed
qed

text \<open>
  Claim C9. With the dispatcher as its own callback, as the Transformer runs it, printing
  a node raises the error that names the node's type exactly when that type is none of
  the labels of the \<^verbatim>\<open>switch\<close>, at the root and at every child; an unknown-type error that
  comes out of a tree always names a type without a case. Whatever the callback, a node
  of such a type raises at once and is left as it was, nothing and the empty string give
  the empty string, and a string is returned as it is.
\<close>

theorem genericPrint_unknown_type:
  "(fst (transform e (Obj n)) = Inl (UnknownType (n_type n))) = (n_type n \<notin> set handledTypes)
   \<and> (fst (printChild e p n) = Inl (UnknownType (n_type n))) = (n_type n \<notin> set handledTypes)
   \<and> (fst (transform e x) = Inl (UnknownType t) \<longrightarrow> t \<notin> set handledTypes)
   \<and> (n_type n \<notin> set handledTypes \<longrightarrow>
        genericPrint e print parent (Obj n) = (Inl (UnknownType (n_type n)), Obj n))
   \<and> genericPrint e print parent Null = (Inr (Text []), Null)
   \<and> genericPrint e print parent (Str s) = (Inr (Text s), Str s)"
proof (intro conjI impI)
  show "(fst (transform e (Obj n)) = Inl (UnknownType (n_type n))) = (n_type n \<notin> set handledTypes)"
    using transform_unknown_unhandled[of e "Obj n" "n_type n"]
    by (auto simp: transform_Obj printNode_unhandled simp del: printChild.simps)
  show "(fst (printChild e p n) = Inl (UnknownType (n_type n))) = (n_type n \<notin> set handledTypes)"
    using printChild_unknown_unhandled[of e p n "n_type n"]
    by (auto simp: printNode_unhandled)
  show "genericPrint e print parent Null = (Inr (Text []), Null)"
    by (simp add: genericPrint_def)
  show "genericPrint e print parent (Str s) = (Inr (Text s), Str s)"
    by (simp add: genericPrint_def)
next
  assume "fst (transform e x) = Inl (UnknownType t)"
  then show "t \<notin> set handledTypes" by (rule transform_unknown_unhandled)
next
  assume "n_type n \<notin> set handledTypes"
  then show "genericPrint e print parent (Obj n) = (Inl (UnknownType (n_type n)), Obj n)"
    by (simp add: genericPrint_def printNode_unhandled)
qed

theorem genericPrint_unknown_type_witness:
  "n_type (mkList True) \<notin> set handledTypes
   \<and> fst (transform stdEnv (Obj (mkList True))) = Inl (UnknownType ''list'')
   \<and> fst (transform stdEnv (Obj (mkNode ''root'' [] [mkNode ''break'' [] [], mkList True])))
       = Inl (UnknownType ''list'')
   \<and> ''list'' \<notin> set handledTypes
   \<and> fst (transform stdEnv (Obj (mkNode ''break'' [] []))) = Inr (Line Hard)"
proof -
  have u: "n_type (mkList True) \<notin> set handledTypes"
    by (simp add: mkList_def handledTypes_def)
  have t: "n_type (mkList True) = ''list''" by (simp add: mkList_def)
  have r: "fst (transform stdEnv (Obj (mkNode ''root'' [] [mkNode ''break'' [] [], mkList True])))
       = Inl (UnknownType ''list'')"
    by code_simp
  have b: "fst (transform stdEnv (Obj (mkNode ''break'' [] []))) = Inr (Line Hard)"
    by code_simp
  have 1: "fst (transform stdEnv (Obj (mkList True))) = Inl (UnknownType ''list'')"
    using genericPrint_unknown_type[of stdEnv "mkList True"] u t by simp
  have 2: "''list'' \<notin> set handledTypes"
    using genericPrint_unknown_type[of stdEnv _ _
        "Obj (mkNode ''root'' [] [mkNode ''break'' [] [], mkList True])" "''list''"] r
    by blast
  show ?thesis using u 1 2 r b by simp
qed

section \<open>The code and break cases\<close>

lemma sublist_replicate_replicate:
  "sublist (replicate k c) (replicate m c) \<longleftrightarrow> k \<le> m"
proof
  assume "sublist (replicate k c) (replicate m c)"
  then obtain ps ss where "replicate m c = ps @ replicate k c @ ss"
    by (auto simp: sublist_def)
  then have "length (replicate m c) = length (ps @ replicate k c @ ss)" by simp
  then show "k \<le> m" by simp
next
  assume "k \<le> m"
  then have "replicate m c = replicate k c @ replicate (m - k) c"
    by (simp add: replicate_add[symmetric])
  then show "sublist (replicate k c) (replicate m c)"
    by (metis sublist_append_rightI)
qed

lemma prefix_replicate_Cons_other:
  assumes "x \<noteq> c"
  shows "prefix (replicate k c) (x # xs) \<longleftrightarrow> k = 0"
  using assms by (cases k) auto

lemma sublist_replicate_across:
  assumes "x \<noteq> c"
  shows "sublist (replicate k c) (replicate m c @ x # xs)
           \<longleftrightarrow> k \<le> m \<or> sublist (replicate k c) xs"
proof
  assume "sublist (replicate k c) (replicate m c @ x # xs)"
  then consider "sublist (replicate k c) (replicate m c)"
    | "sublist (replicate k c) (x # xs)"
    | xs1 xs2 where "replicate k c = xs1 @ xs2" "suffix xs1 (replicate m c)" "prefix xs2 (x # xs)"
    by (auto simp: sublist_append)
  then show "k \<le> m \<or> sublist (replicate k c) xs"
  proof cases
    case 1
    then show ?thesis by (simp add: sublist_replicate_replicate)
  next
    case 2
    then show ?thesis
      using assms by (auto simp: sublist_Cons_right prefix_replicate_Cons_other)
  next
    case 3
    have "xs2 = []"
    proof (cases xs2)
      case Nil then show ?thesis .
    next
      case (Cons y ys)
      then have "y = x" using 3(3) by simp
      moreover have "y \<in> set (replicate k c)" using 3(1) Cons by simp
      ultimately show ?thesis using assms by auto
    qed
    then have "suffix (replicate k c) (replicate m c)" using 3 by simp
    then have "length (replicate k c) \<le> length (replicate m c)" by (rule suffix_length_le)
    then show ?thesis by simp
  qed
next
  assume "k \<le> m \<or> sublist (replicate k c) xs"
  then show "sublist (replicate k c) (replicate m c @ x # xs)"
  proof
    assume "k \<le> m"
    then have "sublist (replicate k c) (replicate m c)" by (simp add: sublist_replicate_replicate)
    then show ?thesis by (auto simp: sublist_append)
  next
    assume "sublist (replicate k c) xs"
    then have "sublist (replicate k c) (x # xs)" by (simp add: sublist_Cons_right)
    then show ?thesis by (auto simp: sublist_append)
  qed
qed

lemma streak_loop_longest:
  "cnt \<le> mx \<Longrightarrow>
     k \<le> streak_loop c cnt mx xs \<longleftrightarrow> k \<le> mx \<or> sublist (replicate k c) (replicate cnt c @ xs)"
proof (induction xs arbitrary: cnt mx)
  case Nil
  then show ?case by (auto simp: sublist_replicate_replicate)
next
  case (Cons x xs)
  show ?case
  proof (cases "x = c")
    case True
    have eq: "replicate cnt c @ c # xs = replicate (Suc cnt) c @ xs"
      by (simp add: replicate_app_Cons_same)
    have le: "Suc cnt \<le> max mx (Suc cnt)" by simp
    have pre: "k \<le> Suc cnt \<Longrightarrow> sublist (replicate k c) (replicate (Suc cnt) c @ xs)"
    proof -
      assume "k \<le> Suc cnt"
      then have "sublist (replicate k c) (replicate (Suc cnt) c)"
        by (simp only: sublist_replicate_replicate)
      then show ?thesis by (simp only: sublist_append) simp
    qed
    have ih: "k \<le> streak_loop c (Suc cnt) (max mx (Suc cnt)) xs \<longleftrightarrow>
               k \<le> max mx (Suc cnt) \<or> sublist (replicate k c) (replicate (Suc cnt) c @ xs)"
      by (rule Cons.IH[OF le])
    have step: "streak_loop c cnt mx (x # xs) = streak_loop c (Suc cnt) (max mx (Suc cnt)) xs"
      using True by simp
    have mid: "k \<le> max mx (Suc cnt) \<or> sublist (replicate k c) (replicate (Suc cnt) c @ xs) \<longleftrightarrow>
          k \<le> mx \<or> sublist (replicate k c) (replicate (Suc cnt) c @ xs)"
      using pre by (auto simp only: max_def split: if_splits)
    have eq': "replicate cnt c @ x # xs = replicate (Suc cnt) c @ xs"
      using eq True by simp
    show ?thesis
      by (simp only: step ih mid eq')
  next
    case False
    have "k \<le> streak_loop c 0 mx xs \<longleftrightarrow> k \<le> mx \<or> sublist (replicate k c) xs"
      using Cons.IH[of 0 mx] by simp
    then show ?thesis
      using False Cons.prems by (auto simp: sublist_replicate_across)
  qed
qed

lemma streak_longest: "k \<le> streak v c \<longleftrightarrow> sublist (replicate k c) v"
  using streak_loop_longest[of 0 0 k c v] by (cases k) (auto simp: streak_def)

lemma FENCE_test_iff:
  "FENCE_test v \<longleftrightarrow> sublist (replicate 3 (CHR 0x60)) v \<or> sublist (replicate 3 (CHR 0x7E)) v"
proof (induction v rule: FENCE_test.induct)
  case (1 a b c rest)
  have r: "replicate 3 x = [x, x, x]" for x :: char by (simp add: numeral_3_eq_3)
  show ?case using 1 by (auto simp: r sublist_Cons_right[of _ a])
qed (auto simp: numeral_3_eq_3 sublist_Cons_right)



lemma genericPrint_code:
  "n_type n = ''code'' \<Longrightarrow> genericPrint e print parent (Obj n) = (printCode e parent n, Obj n)"
  by (simp add: genericPrint_def printNode_def)

text \<open>
  Claim C8. A code node whose language tag, as the code reads it (the encoded
  \<^verbatim>\<open>n.lang || ""\<close>), is empty, printed with fencing disabled and a non-empty value, raises
  the indented-code error exactly when the parent is a listItem, the list-item indent is
  not "tab" and pedantic mode is on; otherwise the value comes out as an indented block.
\<close>

theorem code_indented_or_error:
  assumes "n_type n = ''code''"
    and "encode e (orEmpty (n_lang n)) = []"
    and "\<not> fences (opts e)"
    and "n_value n \<noteq> []"
  shows "genericPrint e print parent (Obj n) =
     (if (\<exists>p. parent = Some p \<and> n_type p = ''listItem'')
          \<and> listItemIndent (opts e) \<noteq> Some ''tab'' \<and> pedantic (opts e)
      then (Inl CannotIndentCode, Obj n)
      else (Inr (Indent (Text (n_value n))), Obj n))"
  using assms
  by (cases parent) (simp_all add: genericPrint_code printCode_def indent_def)

theorem code_indented_or_error_witness:
  "n_type (mkNode ''code'' ''x = 1'' []) = ''code''
   \<and> encode pedanticEnv (orEmpty (n_lang (mkNode ''code'' ''x = 1'' []))) = []
   \<and> \<not> fences (opts pedanticEnv)
   \<and> n_value (mkNode ''code'' ''x = 1'' []) \<noteq> []
   \<and> genericPrint pedanticEnv quietPrint (Some (mkNode ''listItem'' [] [])) (Obj (mkNode ''code'' ''x = 1'' []))
       = (Inl CannotIndentCode, Obj (mkNode ''code'' ''x = 1'' []))
   \<and> genericPrint pedanticEnv quietPrint (Some (mkNode ''root'' [] [])) (Obj (mkNode ''code'' ''x = 1'' []))
       = (Inr (Indent (Text ''x = 1'')), Obj (mkNode ''code'' ''x = 1'' []))"
proof -
  have h: "n_type (mkNode ''code'' ''x = 1'' []) = ''code''"
    "encode pedanticEnv (orEmpty (n_lang (mkNode ''code'' ''x = 1'' []))) = []"
    "\<not> fences (opts pedanticEnv)"
    "n_value (mkNode ''code'' ''x = 1'' []) \<noteq> []"
    by (simp_all add: mkNode_def pedanticEnv_def stdEnv_def remarkOptions_def orEmpty_def)
  have o: "listItemIndent (opts pedanticEnv) \<noteq> Some ''tab''" "pedantic (opts pedanticEnv)"
    by (simp_all add: pedanticEnv_def stdEnv_def remarkOptions_def)
  have 1: "genericPrint pedanticEnv quietPrint (Some (mkNode ''listItem'' [] [])) (Obj (mkNode ''code'' ''x = 1'' []))
       = (Inl CannotIndentCode, Obj (mkNode ''code'' ''x = 1'' []))"
    using code_indented_or_error[OF h, of quietPrint "Some (mkNode ''listItem'' [] [])"] o
    by (simp add: mkNode_def)
  have 2: "genericPrint pedanticEnv quietPrint (Some (mkNode ''root'' [] [])) (Obj (mkNode ''code'' ''x = 1'' []))
       = (Inr (Indent (Text ''x = 1'')), Obj (mkNode ''code'' ''x = 1'' []))"
    using code_indented_or_error[OF h, of quietPrint "Some (mkNode ''root'' [] [])"]
    by (simp add: mkNode_def)
  show ?thesis using h 1 2 by simp
qed

text \<open>
  Claim C5. For a fenced code node the fence is the configured fence character repeated
  \<open>max (L + 1) 3\<close> times, where \<open>L\<close> is the length of the longest run of that character in
  the value: a run of length \<open>L\<close> occurs, no run is longer than \<open>L\<close>, every run is strictly
  shorter than the fence, the fence has at least three characters, a value that contains
  three fence characters in a row gets at least four, and exactly four when that run is
  the longest.
\<close>

theorem code_fence_length:
  assumes "n_type n = ''code''"
    and "\<not> (encode e (orEmpty (n_lang n)) = [] \<and> \<not> fences (opts e) \<and> n_value n \<noteq> [])"
  shows "let v = n_value n; m = fence (opts e); L = streak v m;
             F = replicate (max (L + 1) 3) m
         in (\<exists>v'. genericPrint e print parent (Obj n) =
                (Inr (Concat [Text F, Text (encode e (orEmpty (n_lang n))), Line Hard, v',
                              Line Hard, Text F]), Obj n))
          \<and> sublist (replicate L m) v
          \<and> (\<forall>k. sublist (replicate k m) v \<longrightarrow> k \<le> L \<and> k < length F)
          \<and> 3 \<le> length F
          \<and> (sublist (replicate 3 m) v \<longrightarrow> 4 \<le> length F)
          \<and> (L = 3 \<longrightarrow> F = replicate 4 m)"
proof -
  have run: "sublist (replicate (streak (n_value n) (fence (opts e))) (fence (opts e))) (n_value n)"
    using streak_longest[of "streak (n_value n) (fence (opts e))" "n_value n" "fence (opts e)"] by simp
  have longest: "\<And>k. sublist (replicate k (fence (opts e))) (n_value n)
                    \<Longrightarrow> k \<le> streak (n_value n) (fence (opts e))"
    by (simp add: streak_longest)
  have out: "\<exists>v'. genericPrint e print parent (Obj n) =
      (Inr (Concat [Text (replicate (max (streak (n_value n) (fence (opts e)) + 1) 3) (fence (opts e))),
                    Text (encode e (orEmpty (n_lang n))), Line Hard, v', Line Hard,
                    Text (replicate (max (streak (n_value n) (fence (opts e)) + 1) 3) (fence (opts e)))]),
       Obj n)"
    using assms
    by (auto simp: genericPrint_code printCode_def Let_def concat_doc_def hardline_def)
  show ?thesis
    unfolding Let_def
    using run out longest[of 3] by (auto dest: longest)
qed

theorem code_fence_length_witness:
  "n_type (mkNode ''code'' (''a'' @ backticks 3 @ ''b'') []) = ''code''
   \<and> \<not> (encode stdEnv (orEmpty (n_lang (mkNode ''code'' (''a'' @ backticks 3 @ ''b'') []))) = []
         \<and> \<not> fences (opts stdEnv) \<and> n_value (mkNode ''code'' (''a'' @ backticks 3 @ ''b'') []) \<noteq> [])
   \<and> streak (''a'' @ backticks 3 @ ''b'') (CHR 0x60) = 3
   \<and> (\<exists>v'. genericPrint stdEnv quietPrint None (Obj (mkNode ''code'' (''a'' @ backticks 3 @ ''b'') []))
        = (Inr (Concat [Text (backticks 4), Text [], Line Hard, v', Line Hard, Text (backticks 4)]),
           Obj (mkNode ''code'' (''a'' @ backticks 3 @ ''b'') [])))"
proof -
  let ?n = "mkNode ''code'' (''a'' @ backticks 3 @ ''b'') []"
  have h1: "n_type ?n = ''code''" by (simp add: mkNode_def)
  have h2: "\<not> (encode stdEnv (orEmpty (n_lang ?n)) = []
         \<and> \<not> fences (opts stdEnv) \<and> n_value ?n \<noteq> [])"
    by (simp add: stdEnv_def remarkOptions_def)
  have s: "streak (''a'' @ backticks 3 @ ''b'') (CHR 0x60) = 3"
    by (simp add: streak_def backticks_def numeral_3_eq_3)
  have v: "n_value ?n = ''a'' @ backticks 3 @ ''b''" by (simp add: mkNode_def)
  have m: "fence (opts stdEnv) = CHR 0x60" by (simp add: stdEnv_def remarkOptions_def)
  have l: "encode stdEnv (orEmpty (n_lang ?n)) = []"
    by (simp add: stdEnv_def mkNode_def orEmpty_def)
  have "\<exists>v'. genericPrint stdEnv quietPrint None (Obj ?n)
        = (Inr (Concat [Text (backticks 4), Text [], Line Hard, v', Line Hard, Text (backticks 4)]), Obj ?n)"
    using code_fence_length[OF h1 h2, of quietPrint None]
    unfolding Let_def v m s l by (simp add: backticks_def)
  then show ?thesis using h1 h2 s by blast
qed


text \<open>
  Claim C6, as amended. In fenced code the value is wrapped in \<open>indent\<close> if and only if it
  contains three backticks in a row or three tildes in a row, whichever fence character
  is configured; otherwise it stands between the fences as it is.
\<close>

theorem code_value_indented_iff:
  assumes "n_type n = ''code''"
    and "\<not> (encode e (orEmpty (n_lang n)) = [] \<and> \<not> fences (opts e) \<and> n_value n \<noteq> [])"
  shows "\<exists>F. genericPrint e print parent (Obj n) =
           (Inr (Concat [Text F, Text (encode e (orEmpty (n_lang n))), Line Hard,
                         (if sublist (replicate 3 (CHR 0x60)) (n_value n)
                             \<or> sublist (replicate 3 (CHR 0x7E)) (n_value n)
                          then Indent (Text (n_value n)) else Text (n_value n)),
                         Line Hard, Text F]), Obj n)"
  using assms
  by (auto simp: genericPrint_code printCode_def Let_def concat_doc_def hardline_def indent_def
      FENCE_test_iff)

theorem code_value_indented_iff_witness:
  "n_type (mkNode ''code'' ''a~b'' []) = ''code''
   \<and> \<not> (encode stdEnv (orEmpty (n_lang (mkNode ''code'' ''a~b'' []))) = []
         \<and> \<not> fences (opts stdEnv) \<and> n_value (mkNode ''code'' ''a~b'' []) \<noteq> [])
   \<and> (\<exists>F. fst (genericPrint stdEnv quietPrint None (Obj (mkNode ''code'' ''a~b'' [])))
        = Inr (Concat [Text F, Text [], Line Hard, Text ''a~b'', Line Hard, Text F]))"
proof -
  let ?n = "mkNode ''code'' ''a~b'' []"
  have h1: "n_type ?n = ''code''" by (simp add: mkNode_def)
  have h2: "\<not> (encode stdEnv (orEmpty (n_lang ?n)) = []
         \<and> \<not> fences (opts stdEnv) \<and> n_value ?n \<noteq> [])"
    by (simp add: stdEnv_def remarkOptions_def)
  have v: "n_value ?n = ''a~b''" by (simp add: mkNode_def)
  have l: "encode stdEnv (orEmpty (n_lang ?n)) = []"
    by (simp add: stdEnv_def mkNode_def orEmpty_def)
  have t: "\<not> FENCE_test ''a~b''" by simp
  have "\<exists>F. fst (genericPrint stdEnv quietPrint None (Obj ?n))
        = Inr (Concat [Text F, Text [], Line Hard, Text ''a~b'', Line Hard, Text F])"
    using code_value_indented_iff[OF h1 h2, of quietPrint None] t
    unfolding v l FENCE_test_iff[symmetric] by auto
  then show ?thesis using h1 h2 by blast
qed

text \<open>
  Claim C6, as stated, fails: with the backtick as configured fence character the value
  \<open>~~~\<close> holds no backtick at all, and is indented all the same.
\<close>

theorem code_tildes_indented_counterexample:
  "fence (opts stdEnv) = CHR 0x60
   \<and> CHR 0x60 \<notin> set ''~~~''
   \<and> fst (genericPrint stdEnv quietPrint None (Obj (mkNode ''code'' ''~~~'' [])))
       = Inr (Concat [Text (backticks 3), Text [], Line Hard, Indent (Text ''~~~''), Line Hard,
                      Text (backticks 3)])"
  by (simp add: genericPrint_code mkNode_def printCode_def stdEnv_def remarkOptions_def
      orEmpty_def streak_def backticks_def concat_doc_def hardline_def indent_def Let_def
      numeral_3_eq_3)



section \<open>Joining the children of a block\<close>

text \<open>
  The block-join rule in the words of the specification: the number of hard lines between
  two neighbours, and the joined sequence.
\<close>

definition spec_breaks :: "node \<Rightarrow> node \<Rightarrow> nat" where
  "spec_breaks a b =
     (if n_type a = ''list'' \<and> n_type b = ''list'' \<and> n_ordered a = n_ordered b then 3
      else if n_type a = ''list'' \<and> n_type b = ''code'' \<and> \<not> truthy (n_lang b) then 3
      else 2)"

fun spec_join :: "(node \<times> doc) list \<Rightarrow> doc list" where
  "spec_join [] = []"
| "spec_join [(c, d)] = [d]"
| "spec_join ((c1, d1) # (c2, d2) # rest) =
     d1 # Concat (replicate (spec_breaks c1 c2) (Line Hard)) # spec_join ((c2, d2) # rest)"

lemma separator_spec:
  "n_type pv = n_type pv0 \<Longrightarrow> n_ordered pv = n_ordered pv0 \<Longrightarrow>
     separator pv c = Concat (replicate (spec_breaks pv0 c) (Line Hard))"
  by (auto simp: separator_def spec_breaks_def hardlinex2_def hardlinex3_def concat_doc_def
      hardline_def numeral_2_eq_2 numeral_3_eq_3)

definition lead :: "node option \<Rightarrow> node list \<Rightarrow> doc list" where
  "lead prev cs = (case prev of None \<Rightarrow> []
                   | Some pv \<Rightarrow> (case cs of [] \<Rightarrow> [] | c # _ \<Rightarrow> [separator pv c]))"

lemma printBlock_each_join:
  assumes "\<forall>c \<in> set cs. \<exists>d. fst (print p c) = Inr d"
    and "\<forall>c \<in> set cs. n_type (snd (print p c)) = n_type c \<and> n_ordered (snd (print p c)) = n_ordered c"
  shows "fst (printBlock_each print p prev cs)
           = Inr (lead prev cs @ spec_join (map (\<lambda>c. (c, projr (fst (print p c)))) cs))"
  using assms
proof (induction cs arbitrary: prev)
  case Nil
  then show ?case by (simp add: lead_def split: option.splits)
next
  case (Cons c cs)
  obtain d c' where pc: "print p c = (Inr d, c')"
    using Cons.prems(1) by (cases "print p c") auto
  have keep: "n_type c' = n_type c" "n_ordered c' = n_ordered c"
    using Cons.prems(2) pc by auto
  have ih: "fst (printBlock_each print p (Some c') cs)
           = Inr (lead (Some c') cs @ spec_join (map (\<lambda>c. (c, projr (fst (print p c)))) cs))"
    using Cons.IH[of "Some c'"] Cons.prems by simp
  have tail: "d # lead (Some c') cs @ spec_join (map (\<lambda>c. (c, projr (fst (print p c)))) cs)
              = spec_join ((c, d) # map (\<lambda>c. (c, projr (fst (print p c)))) cs)"
    by (cases cs) (simp_all add: lead_def separator_spec[OF keep])
  have pushed: "(case prev of None \<Rightarrow> [] | Some pv \<Rightarrow> [separator pv c]) = lead prev (c # cs)"
    by (simp add: lead_def split: option.splits)
  obtain r cs' where rec: "printBlock_each print p (Some c') cs = (r, cs')"
    by (cases "printBlock_each print p (Some c') cs") auto
  then have r: "r = Inr (lead (Some c') cs @ spec_join (map (\<lambda>c. (c, projr (fst (print p c)))) cs))"
    using ih by simp
  show ?case
    using tail by (simp add: pc rec r pushed[symmetric] del: spec_join.simps)
qed

lemma spec_join_empty: "spec_join xs = [] \<longleftrightarrow> xs = []"
  by (induction xs rule: spec_join.induct) simp_all

text \<open>
  Claim C3. When every child of a block container prints, and printing leaves the type
  and the ordered flag of a child as they were, the children of the result are the Docs
  of the children with, between two neighbours, exactly three hard lines when both are
  lists with equal ordered flags or when a list is followed by a code node without
  language tag, and exactly two hard lines otherwise. A block without children is the
  empty text. The root case appends a hard line, the blockquote case wraps the block in
  the marker block.
\<close>

theorem printBlock_joins_siblings:
  assumes "\<forall>c \<in> set (n_children n). \<exists>d. fst (print n c) = Inr d"
    and "\<forall>c \<in> set (n_children n).
           n_type (snd (print n c)) = n_type c \<and> n_ordered (snd (print n c)) = n_ordered c"
  shows "let joined = (if n_children n = [] then Text []
                       else Concat (spec_join (map (\<lambda>c. (c, projr (fst (print n c))))
                                                (n_children n))))
         in fst (printBlock print n) = Inr joined
          \<and> (n_type n = ''root'' \<longrightarrow>
               fst (genericPrint e print parent (Obj n)) = Inr (Concat [joined, Line Hard]))
          \<and> (n_type n = ''blockquote'' \<longrightarrow>
               fst (genericPrint e print parent (Obj n)) = Inr (MarkerBlock ''> '' joined))"
proof -
  have pb: "fst (printBlock print n)
      = Inr (concat_doc (spec_join (map (\<lambda>c. (c, projr (fst (print n c)))) (n_children n))))"
    using printBlock_each_join[where print = print and p = n and cs = "n_children n"
        and prev = None, OF assms]
    by (auto simp: printBlock_def lead_def split: prod.splits sum.splits)
  have joined: "concat_doc (spec_join (map (\<lambda>c. (c, projr (fst (print n c)))) (n_children n)))
      = (if n_children n = [] then Text []
         else Concat (spec_join (map (\<lambda>c. (c, projr (fst (print n c)))) (n_children n))))"
    by (simp add: concat_doc_def spec_join_empty)
  have root: "n_type n = ''root'' \<Longrightarrow> fst (genericPrint e print parent (Obj n))
      = (case fst (printBlock print n) of Inl err \<Rightarrow> Inl err
         | Inr b \<Rightarrow> Inr (Concat [b, Line Hard]))"
    by (auto simp: genericPrint_def printNode_def concat_doc_def hardline_def
        split: prod.splits sum.splits)
  have quote: "n_type n = ''blockquote'' \<Longrightarrow> fst (genericPrint e print parent (Obj n))
      = (case fst (printBlock print n) of Inl err \<Rightarrow> Inl err
         | Inr b \<Rightarrow> Inr (MarkerBlock ''> '' b))"
    by (auto simp: genericPrint_def printNode_def printBlockWithLeftMarkers_def markerBlock_def
        split: prod.splits sum.splits)
  show ?thesis
    unfolding Let_def joined[symmetric]
    using pb root quote by simp
qed

theorem printBlock_joins_siblings_witness:
  "list_all (\<lambda>c. \<exists>d. fst (quietPrint sampleBlock c) = Inr d) (n_children sampleBlock)
   \<and> list_all (\<lambda>c. n_type (snd (quietPrint sampleBlock c)) = n_type c
                    \<and> n_ordered (snd (quietPrint sampleBlock c)) = n_ordered c)
         (n_children sampleBlock)
   \<and> fst (genericPrint stdEnv quietPrint None (Obj sampleBlock)) =
       Inr (Concat [Concat [Text ''list'', Concat [Line Hard, Line Hard, Line Hard],
                            Text ''list'', Concat [Line Hard, Line Hard],
                            Text ''list'', Concat [Line Hard, Line Hard, Line Hard],
                            Text ''code'', Concat [Line Hard, Line Hard],
                            Text ''paragraph''], Line Hard])"
proof -
  have h1: "\<forall>c \<in> set (n_children sampleBlock). \<exists>d. fst (quietPrint sampleBlock c) = Inr d"
    by (simp add: quietPrint_def)
  have h2: "\<forall>c \<in> set (n_children sampleBlock).
           n_type (snd (quietPrint sampleBlock c)) = n_type c
         \<and> n_ordered (snd (quietPrint sampleBlock c)) = n_ordered c"
    by (simp add: quietPrint_def)
  have t: "n_type sampleBlock = ''root''" by (simp add: sampleBlock_def mkNode_def)
  have ne: "n_children sampleBlock \<noteq> []" by (simp add: sampleBlock_def mkNode_def)
  have j: "spec_join (map (\<lambda>c. (c, projr (fst (quietPrint sampleBlock c)))) (n_children sampleBlock))
      = [Text ''list'', Concat [Line Hard, Line Hard, Line Hard],
         Text ''list'', Concat [Line Hard, Line Hard],
         Text ''list'', Concat [Line Hard, Line Hard, Line Hard],
         Text ''code'', Concat [Line Hard, Line Hard],
         Text ''paragraph'']"
    by (simp add: sampleBlock_def mkNode_def mkList_def quietPrint_def spec_breaks_def truthy_def
        numeral_2_eq_2 numeral_3_eq_3)
  show ?thesis
    using printBlock_joins_siblings[where print = quietPrint and n = sampleBlock
        and e = stdEnv and parent = None, OF h1 h2] h1 h2 t ne
    unfolding Let_def j list_all_iff by simp
qed



section \<open>What is handed to fill\<close>

text \<open>
  Splicing in the words of the specification: a Concat is replaced by its parts, down to a
  given number of levels; whatever lies deeper stays as it is.
\<close>

fun spliceLevels :: "nat \<Rightarrow> doc \<Rightarrow> doc list" where
  "spliceLevels 0 d = [d]"
| "spliceLevels (Suc k) d =
     (case d of Concat parts \<Rightarrow> concat (map (spliceLevels k) parts) | _ \<Rightarrow> [d])"


lemma splice0: "concat (map (spliceLevels 0) xs) = xs"
  by (induction xs) simp_all

lemma flattenOnce_splice1: "flattenOnce docs = concat (map (spliceLevels (Suc 0)) docs)"
  by (induction docs) (auto simp: flattenStep_def splice0 split: doc.splits)

lemma flattenOnce_append: "flattenOnce (xs @ ys) = flattenOnce xs @ flattenOnce ys"
  by (induction xs) simp_all

lemma flattenOnce_twice_splice2:
  "flattenOnce (flattenOnce docs) = concat (map (spliceLevels (Suc (Suc 0))) docs)"
proof (induction docs)
  case Nil
  then show ?case by simp
next
  case (Cons d ds)
  have "flattenOnce (flattenStep d) = spliceLevels (Suc (Suc 0)) d"
    by (cases d) (simp_all add: flattenStep_def flattenOnce_splice1)
  then show ?case using Cons by (simp add: flattenOnce_append)
qed

text \<open>
  Claim C2, as amended. \<open>flattenOnce\<close> splices exactly one level. The footnote and the
  paragraph case apply it twice, so the sequence handed to fill is the sequence of child
  Docs (interspersed with soft lines in a paragraph) with two levels of Concat spliced;
  a Concat at the third level is preserved.
\<close>

theorem flattened_twice_before_fill:
  "flattenOnce docs = concat (map (spliceLevels (Suc 0)) docs)
   \<and> (n_type n = ''footnote'' \<and> fst (pathMap print n (n_children n)) = Inr childDocs \<longrightarrow>
        fst (genericPrint e print parent (Obj n)) =
          (case fill (concat (map (spliceLevels (Suc (Suc 0))) childDocs)) of
             Inl err \<Rightarrow> Inl err
           | Inr f \<Rightarrow> Inr (Concat [Text ''[^'', f, Text '']''])))
   \<and> (n_type n = ''paragraph''
        \<and> fst (pathMap print (set_children (trimFirstText (n_children n)) n)
                 (trimFirstText (n_children n))) = Inr ds \<longrightarrow>
        fst (genericPrint e print parent (Obj n)) =
          fill (concat (map (spliceLevels (Suc (Suc 0))) (intersperse softline ds))))
   \<and> spliceLevels (Suc (Suc 0)) (Concat [Concat [Concat ps]]) = [Concat ps]"
proof (intro conjI impI)
  show "flattenOnce docs = concat (map (spliceLevels (Suc 0)) docs)"
    by (rule flattenOnce_splice1)
  show "spliceLevels (Suc (Suc 0)) (Concat [Concat [Concat ps]]) = [Concat ps]"
    by simp
next
  assume a: "n_type n = ''footnote'' \<and> fst (pathMap print n (n_children n)) = Inr childDocs"
  then show "fst (genericPrint e print parent (Obj n)) =
          (case fill (concat (map (spliceLevels (Suc (Suc 0))) childDocs)) of
             Inl err \<Rightarrow> Inl err
           | Inr f \<Rightarrow> Inr (Concat [Text ''[^'', f, Text '']'']))"
    by (auto simp: genericPrint_def printNode_def printFootnote_def concat_doc_def
        flattenOnce_twice_splice2 split: prod.splits sum.splits)
next
  assume a: "n_type n = ''paragraph''
        \<and> fst (pathMap print (set_children (trimFirstText (n_children n)) n)
                 (trimFirstText (n_children n))) = Inr ds"
  then show "fst (genericPrint e print parent (Obj n)) =
          fill (concat (map (spliceLevels (Suc (Suc 0))) (intersperse softline ds)))"
    by (auto simp: genericPrint_def printNode_def printParagraph_def Let_def
        flattenOnce_twice_splice2 split: prod.splits sum.splits)
qed

lemma printChild_text:
  "n_type c = ''text'' \<Longrightarrow> printChild e p c = (Inr (printText e c), c)"
  by (simp add: printNode_def)

theorem flattened_twice_before_fill_witness:
  "n_type sampleFootnote = ''footnote''
   \<and> fst (pathMap (printChild stdEnv) sampleFootnote (n_children sampleFootnote))
       = Inr [Concat [Text ''*'', Concat [Text ''a''], Text ''*'']]
   \<and> fst (genericPrint stdEnv (printChild stdEnv) None (Obj sampleFootnote))
       = Inr (Concat [Text ''[^'', Fill [Text ''*'', Text ''a'', Text ''*''], Text '']''])"
proof -
  have t: "n_type sampleFootnote = ''footnote''" by (simp add: sampleFootnote_def mkNode_def)
  have pm: "fst (pathMap (printChild stdEnv) sampleFootnote (n_children sampleFootnote))
       = Inr [Concat [Text ''*'', Concat [Text ''a''], Text ''*'']]"
    by code_simp
  have "fst (genericPrint stdEnv (printChild stdEnv) None (Obj sampleFootnote))
       = Inr (Concat [Text ''[^'', Fill [Text ''*'', Text ''a'', Text ''*''], Text '']''])"
    using flattened_twice_before_fill[of _ sampleFootnote "printChild stdEnv" _ stdEnv None] t pm
    by (simp add: fill_def)
  then show ?thesis using t pm by simp
qed

text \<open>
  Claim C2, as stated, fails: for a footnote that holds an emphasised word the child Docs
  spliced once still hold the Concat of the word, and the sequence handed to fill does
  not.
\<close>

theorem flattened_once_counterexample:
  "fst (pathMap (printChild stdEnv) sampleFootnote (n_children sampleFootnote))
       = Inr [Concat [Text ''*'', Concat [Text ''a''], Text ''*'']]
   \<and> concat (map (spliceLevels (Suc 0)) [Concat [Text ''*'', Concat [Text ''a''], Text ''*'']])
       = [Text ''*'', Concat [Text ''a''], Text ''*'']
   \<and> fst (transform stdEnv (Obj sampleFootnote))
       = Inr (Concat [Text ''[^'', Fill [Text ''*'', Text ''a'', Text ''*''], Text '']''])"
proof -
  have pm: "pathMap (printChild stdEnv) sampleFootnote (n_children sampleFootnote)
       = (Inr [Concat [Text ''*'', Concat [Text ''a''], Text ''*'']], n_children sampleFootnote)"
    by code_simp
  have t: "n_type sampleFootnote = ''footnote''" by (simp add: sampleFootnote_def mkNode_def)
  have "fst (transform stdEnv (Obj sampleFootnote))
       = Inr (Concat [Text ''[^'', Fill [Text ''*'', Text ''a'', Text ''*''], Text '']''])"
    by (simp add: transform_def genericPrint_def printNode_def t printFootnote_def pm
        flattenStep_def fill_def concat_doc_def)
  then show ?thesis using pm by simp
qed

text \<open>
  The invariant of a fill sequence in the words of the specification: content at the even
  positions, separators (the Line Docs) at the odd ones, content first and last.
\<close>

definition isSeparator :: "doc \<Rightarrow> bool" where
  "isSeparator d = (case d of Line _ \<Rightarrow> True | _ \<Rightarrow> False)"

fun alternates :: "doc list \<Rightarrow> bool" where
  "alternates [] = False"
| "alternates [d] = (\<not> isSeparator d)"
| "alternates (d # s # rest) = (\<not> isSeparator d \<and> isSeparator s \<and> alternates rest)"

lemma alternates_odd: "alternates xs \<Longrightarrow> odd (length xs)"
  by (induction xs rule: alternates.induct) simp_all

lemma alternates_snoc2:
  "alternates xs \<Longrightarrow> isSeparator s \<Longrightarrow> \<not> isSeparator c \<Longrightarrow> alternates (xs @ [s, c])"
  by (induction xs rule: alternates.induct) simp_all

lemma split_loop_nonempty: "split_loop cur b s \<noteq> []"
  by (induction s arbitrary: cur b) simp_all

lemma alternates_intersperse:
  "ws \<noteq> [] \<Longrightarrow> \<forall>w \<in> set ws. \<not> isSeparator w \<Longrightarrow> isSeparator sep
     \<Longrightarrow> alternates (intersperse sep ws)"
  by (induction sep ws rule: intersperse.induct) simp_all

lemma textToWords_alternates:
  assumes "text \<noteq> []"
  shows "alternates (textToWords e text shouldEncode shouldEscape)"
proof -
  have "alternates (intersperse line
        (map (\<lambda>word.
           let w1 = (if shouldEscape then escape e word else word);
               w2 = (if shouldEncode then encode e w1 else w1)
           in Text w2) (split_ws text)))"
    by (rule alternates_intersperse)
       (auto simp: split_ws_def split_loop_nonempty isSeparator_def line_def Let_def)
  then show ?thesis using assms by (simp add: textToWords_def)
qed

text \<open>
  Claim C1, as amended. The sequences that are built by \<open>textToWords\<close> from a non-empty
  text alternate words and \<open>line\<close> separators and have odd length, so fill accepts them;
  so do the identifier tag of a footnoteDefinition and the identifier-and-URL parts of a
  definition, which a definition without title hands to fill as they are.
\<close>

theorem text_sequences_alternate:
  "(text \<noteq> [] \<longrightarrow>
      alternates (textToWords e text shouldEncode shouldEscape)
      \<and> odd (length (textToWords e text shouldEncode shouldEscape))
      \<and> printWrappingText e text shouldEncode shouldEscape
          = Inr (Fill (textToWords e text shouldEncode shouldEscape)))
   \<and> alternates (idAndUrlParts e n) \<and> odd (length (idAndUrlParts e n))
   \<and> alternates (idTagParts e n) \<and> odd (length (idTagParts e n))
   \<and> (n_type n = ''definition'' \<and> \<not> truthy (n_title n) \<longrightarrow>
        fst (genericPrint e print parent (Obj n))
          = Inr (Group (Indent (Concat [Fill (idAndUrlParts e n)])) False))"
proof -
  have tag: "alternates (idTagParts e n)"
    unfolding idTagParts_def by (rule textToWords_alternates) simp
  have "alternates (textToWords e (''['' @ toLowerCase (n_identifier n) @ '']:'') False False)"
    by (rule textToWords_alternates) simp
  then have url: "alternates (idAndUrlParts e n)"
    unfolding idAndUrlParts_def
    by (rule alternates_snoc2) (simp_all add: isSeparator_def line_def)
  have dfn: "n_type n = ''definition'' \<and> \<not> truthy (n_title n) \<Longrightarrow>
        fst (genericPrint e print parent (Obj n))
          = Inr (Group (Indent (Concat [Fill (idAndUrlParts e n)])) False)"
    using alternates_odd[OF url]
    by (simp add: genericPrint_def printNode_def printDefinition_def fill_def group_def
        indent_def concat_doc_def)
  have tw: "text \<noteq> [] \<Longrightarrow> alternates (textToWords e text shouldEncode shouldEscape)"
    by (rule textToWords_alternates)
  show ?thesis
    using tag url dfn tw alternates_odd[OF tag] alternates_odd[OF url]
    by (auto simp: printWrappingText_def fill_def dest: alternates_odd)
qed

theorem text_sequences_alternate_witness:
  "''a b'' \<noteq> []
   \<and> alternates (textToWords stdEnv ''a b'' False False)
   \<and> textToWords stdEnv ''a b'' False False = [Text ''a'', Line Normal, Text ''b'']
   \<and> printWrappingText stdEnv ''a b'' False False = Inr (Fill [Text ''a'', Line Normal, Text ''b''])"
proof -
  have w: "textToWords stdEnv ''a b'' False False = [Text ''a'', Line Normal, Text ''b'']"
    by code_simp
  have "alternates (textToWords stdEnv ''a b'' False False)
        \<and> printWrappingText stdEnv ''a b'' False False
            = Inr (Fill (textToWords stdEnv ''a b'' False False))"
    using text_sequences_alternate[of "''a b''" stdEnv False False] by simp
  then show ?thesis using w by simp
qed

text \<open>
  Claim C1, as stated, fails: the footnoteDefinition case hands fill the two items
  \<open>[line, content]\<close>, a separator first, and a footnote with two text children hands it
  the two words with no separator between them. Both have even length.
\<close>

theorem footnoteDefinition_even_fill_counterexample:
  "fst (transform stdEnv (Obj (mkNode ''footnoteDefinition'' [] [])))
     = Inl (MalformedFill [Line Normal, Text []])
   \<and> length [Line Normal, Text []] = 2
   \<and> fst (transform stdEnv (Obj (mkNode ''footnote'' []
            [mkNode ''text'' ''a'' [], mkNode ''text'' ''b'' []])))
     = Inl (MalformedFill [Text ''a'', Text ''b''])"
proof -
  have 1: "fst (transform stdEnv (Obj (mkNode ''footnoteDefinition'' [] [])))
     = Inl (MalformedFill [Line Normal, Text []])"
    by code_simp
  have 2: "fst (transform stdEnv (Obj (mkNode ''footnote'' []
            [mkNode ''text'' ''a'' [], mkNode ''text'' ''b'' []])))
     = Inl (MalformedFill [Text ''a'', Text ''b''])"
    by code_simp
  show ?thesis using 1 2 by simp
qed


section \<open>The mutation of the AST\<close>

text \<open>
  \<open>trimmedOnly False n n'\<close>: the tree \<open>n'\<close> is the tree \<open>n\<close>, node for node and field for
  field, except that the value of a text node that is the first child of a paragraph may
  be its value with the leading whitespace removed.
\<close>

fun trimmedOnly :: "bool \<Rightarrow> node \<Rightarrow> node \<Rightarrow> bool"
  and trimmedOnlyList :: "bool \<Rightarrow> node list \<Rightarrow> node list \<Rightarrow> bool" where
  "trimmedOnly first (Node t v l ord i u ti a r cs) (Node t' v' l' ord' i' u' ti' a' r' cs') =
     (t' = t \<and> l' = l \<and> ord' = ord \<and> i' = i \<and> u' = u \<and> ti' = ti \<and> a' = a \<and> r' = r
      \<and> (v' = v \<or> (first \<and> t = ''text'' \<and> v' = trimStart v))
      \<and> trimmedOnlyList (t = ''paragraph'') cs cs')"
| "trimmedOnlyList first [] [] = True"
| "trimmedOnlyList first (c # cs) (c' # cs') =
     (trimmedOnly first c c' \<and> trimmedOnlyList False cs cs')"
| "trimmedOnlyList first [] (c' # cs') = False"
| "trimmedOnlyList first (c # cs) [] = False"

lemma trimmedOnly_refl: "trimmedOnly b n n"
proof (induction n arbitrary: b)
  case (Node t v l ord i u ti a r cs)
  have "trimmedOnlyList b' cs cs" for b'
    using Node.IH
  proof (induction cs arbitrary: b')
    case Nil
    then show ?case by simp
  next
    case (Cons c cs)
    then show ?case by simp
  qed
  then show ?case by simp
qed

lemma trimmedOnlyList_refl: "trimmedOnlyList b cs cs"
  by (induction cs arbitrary: b) (simp_all add: trimmedOnly_refl)

lemma trimmedOnly_weaken: "trimmedOnly False n n' \<Longrightarrow> trimmedOnly b n n'"
  by (cases n; cases n') auto

lemma trimmedOnlyList_weaken: "trimmedOnlyList False cs cs' \<Longrightarrow> trimmedOnlyList b cs cs'"
  by (cases cs; cases cs') (auto simp: trimmedOnly_weaken)

lemma trimmedOnly_after_trim:
  "n_type c = ''text'' \<Longrightarrow> trimmedOnly False (set_value (trimStart (n_value c)) c) c'
     \<Longrightarrow> trimmedOnly True c c'"
  by (cases c; cases c') auto

lemma trimmedOnly_set_children:
  "trimmedOnlyList (n_type n = ''paragraph'') (n_children n) cs' \<Longrightarrow> trimmedOnly b n (set_children cs' n)"
  by (cases n) simp

lemma snd_pathMap_Cons:
  "snd (pathMap print p (c # cs)) =
     snd (print p c) # (if isl (fst (print p c)) then cs else snd (pathMap print p cs))"
  by (auto split: prod.splits sum.splits)

lemma snd_printBlock_each_Cons:
  "snd (printBlock_each print p prev (c # cs)) =
     snd (print p c) # (if isl (fst (print p c)) then cs
                        else snd (printBlock_each print p (Some (snd (print p c))) cs))"
  by (auto split: prod.splits sum.splits)

lemma pathMap_frame:
  "(\<And>c. c \<in> set cs \<Longrightarrow> trimmedOnly False c (snd (print p c)))
     \<Longrightarrow> trimmedOnlyList False cs (snd (pathMap print p cs))"
proof (induction cs)
  case Nil
  then show ?case by simp
next
  case (Cons c cs)
  then show ?case
    by (simp only: snd_pathMap_Cons) (simp add: trimmedOnlyList_refl)
qed

lemma printBlock_each_frame:
  "(\<And>c. c \<in> set cs \<Longrightarrow> trimmedOnly False c (snd (print p c)))
     \<Longrightarrow> trimmedOnlyList False cs (snd (printBlock_each print p prev cs))"
proof (induction cs arbitrary: prev)
  case Nil
  then show ?case by simp
next
  case (Cons c cs)
  then show ?case
    by (simp only: snd_printBlock_each_Cons) (simp add: trimmedOnlyList_refl)
qed

lemma snd_printBlock:
  "snd (printBlock print n) = set_children (snd (printBlock_each print n None (n_children n))) n"
  by (simp add: printBlock_def split: prod.splits sum.splits)

lemma snd_printBlockWithLeftMarkers:
  "snd (printBlockWithLeftMarkers print n m) = snd (printBlock print n)"
  by (simp add: printBlockWithLeftMarkers_def split: prod.splits sum.splits)

lemma snd_printQuoted:
  "snd (printQuoted print n l r) = set_children (snd (pathMap print n (n_children n))) n"
  by (simp add: printQuoted_def split: prod.splits sum.splits)

lemma snd_printFootnote:
  "snd (printFootnote print n) = set_children (snd (pathMap print n (n_children n))) n"
  by (simp add: printFootnote_def split: prod.splits sum.splits)

lemma snd_printFootnoteDefinition:
  "snd (printFootnoteDefinition e print n) = snd (printBlock print n)"
  by (simp add: printFootnoteDefinition_def split: prod.splits sum.splits)

lemma set_children_twice [simp]: "set_children cs (set_children cs0 n) = set_children cs n"
  by (cases n) simp

lemma snd_printParagraph:
  "snd (printParagraph print n) =
     set_children (snd (pathMap print (set_children (trimFirstText (n_children n)) n)
                          (trimFirstText (n_children n)))) n"
  by (simp add: printParagraph_def Let_def split: prod.splits sum.splits)

lemma block_frame:
  assumes "\<And>p c. node_count c < node_count n \<Longrightarrow> trimmedOnly False c (snd (print p c))"
  shows "trimmedOnly b n (snd (printBlock print n))"
  unfolding snd_printBlock
  by (rule trimmedOnly_set_children, rule trimmedOnlyList_weaken, rule printBlock_each_frame)
     (simp add: assms node_count_child)

lemma children_frame:
  assumes "\<And>p c. node_count c < node_count n \<Longrightarrow> trimmedOnly False c (snd (print p c))"
  shows "trimmedOnly b n (set_children (snd (pathMap print n (n_children n))) n)"
  by (rule trimmedOnly_set_children, rule trimmedOnlyList_weaken, rule pathMap_frame)
     (simp add: assms node_count_child)

lemma paragraph_frame:
  assumes "\<And>p c. node_count c < node_count n \<Longrightarrow> trimmedOnly False c (snd (print p c))"
    and "n_type n = ''paragraph''"
  shows "trimmedOnly b n (snd (printParagraph print n))"
proof -
  let ?n1 = "set_children (trimFirstText (n_children n)) n"
  have "trimmedOnlyList True (n_children n) (snd (pathMap print ?n1 (trimFirstText (n_children n))))"
  proof (cases "n_children n")
    case Nil
    then show ?thesis by (simp add: trimFirstText_def)
  next
    case (Cons c cs)
    have rest: "trimmedOnlyList False cs (snd (pathMap print ?n1 cs))"
      by (rule pathMap_frame) (simp add: assms(1) node_count_child Cons)
    show ?thesis
    proof (cases "n_type c = ''text''")
      case True
      let ?c1 = "set_value (trimStart (n_value c)) c"
      have "node_count ?c1 < node_count n"
        using node_count_child[of c n] Cons by simp
      then have "trimmedOnly False ?c1 (snd (print ?n1 ?c1))" by (rule assms(1))
      then have "trimmedOnly True c (snd (print ?n1 ?c1))"
        by (rule trimmedOnly_after_trim[OF True])
      then show ?thesis using rest True Cons
        by (simp add: trimFirstText_def snd_pathMap_Cons trimmedOnlyList_refl del: pathMap.simps)
    next
      case False
      have "trimmedOnly False c (snd (print ?n1 c))"
        by (rule assms(1)) (simp add: node_count_child Cons)
      then have "trimmedOnly True c (snd (print ?n1 c))" by (rule trimmedOnly_weaken)
      then show ?thesis using rest False Cons
        by (simp add: trimFirstText_def snd_pathMap_Cons trimmedOnlyList_refl del: pathMap.simps)
    qed
  qed
  then show ?thesis
    unfolding snd_printParagraph using assms(2)
    by (simp add: trimmedOnly_set_children)
qed

lemma snd_root_case:
  "snd (case printBlock print n of
          (Inl err, n') \<Rightarrow> (Inl err, n')
        | (Inr b, n') \<Rightarrow> (Inr (f b), n')) = snd (printBlock print n)"
  by (simp split: prod.splits sum.splits)

lemma printNode_frame:
  assumes "\<And>p c. node_count c < node_count n \<Longrightarrow> trimmedOnly False c (snd (print p c))"
  shows "trimmedOnly False n (snd (printNode e print parent n))"
proof -
  note fr = block_frame[OF assms] children_frame[OF assms] paragraph_frame[OF assms]
  consider "n_type n = ''root''" | "n_type n = ''blockquote''" | "n_type n = ''break''"
    | "n_type n = ''code''" | "n_type n = ''definition''" | "n_type n = ''delete''"
    | "n_type n = ''footnoteDefinition''" | "n_type n = ''footnoteReference''"
    | "n_type n = ''footnote''" | "n_type n = ''heading''" | "n_type n = ''html''"
    | "n_type n = ''imageReference''" | "n_type n = ''text''" | "n_type n = ''paragraph''"
    | "n_type n = ''emphasis''" | "n_type n = ''strong''"
    | "n_type n \<notin> set handledTypes"
    unfolding handledTypes_def by auto
  then show ?thesis
  proof cases
    case 1
    then show ?thesis by (simp add: printNode_def snd_root_case fr)
  next
    case 2
    then show ?thesis by (simp add: printNode_def snd_printBlockWithLeftMarkers fr)
  next
    case 3
    then show ?thesis by (simp add: printNode_def trimmedOnly_refl)
  next
    case 4
    then show ?thesis by (simp add: printNode_def trimmedOnly_refl)
  next
    case 5
    then show ?thesis by (simp add: printNode_def trimmedOnly_refl)
  next
    case 6
    then show ?thesis by (simp add: printNode_def snd_printQuoted fr)
  next
    case 7
    then show ?thesis by (simp add: printNode_def snd_printFootnoteDefinition fr)
  next
    case 8
    then show ?thesis by (simp add: printNode_def trimmedOnly_refl)
  next
    case 9
    then show ?thesis by (simp add: printNode_def snd_printFootnote fr)
  next
    case 10
    then show ?thesis by (simp add: printNode_def trimmedOnly_refl)
  next
    case 11
    then show ?thesis by (simp add: printNode_def trimmedOnly_refl)
  next
    case 12
    then show ?thesis by (simp add: printNode_def trimmedOnly_refl)
  next
    case 13
    then show ?thesis by (simp add: printNode_def trimmedOnly_refl)
  next
    case 14
    then show ?thesis by (simp add: printNode_def fr)
  next
    case 15
    then show ?thesis by (simp add: printNode_def Let_def snd_printQuoted fr)
  next
    case 16
    then show ?thesis by (simp add: printNode_def Let_def snd_printQuoted fr)
  next
    case 17
    then show ?thesis by (simp add: printNode_unhandled trimmedOnly_refl)
  qed
qed

lemma printChild_frame: "trimmedOnly False c (snd (printChild e p c))"
proof (induction e p c rule: printChild.induct)
  case (1 e p c)
  show ?case
    by (subst printChild.simps, rule printNode_frame) (rule 1)
qed


lemma n_type_set_value [simp]: "n_type (set_value v c) = n_type c"
  by (cases c) simp

lemma n_value_set_value [simp]: "n_value (set_value v c) = v"
  by (cases c) simp

lemma set_value_twice [simp]: "set_value v (set_value v0 c) = set_value v c"
  by (cases c) simp

lemma n_type_set_children [simp]: "n_type (set_children cs n) = n_type n"
  by (cases n) simp

lemma trimStart_idem [simp]: "trimStart (trimStart v) = trimStart v"
  by (simp add: trimStart_def dropWhile_idem)

text \<open>
  Claim C10. Printing a tree changes nothing in it but the values of text nodes that are
  first children of paragraphs, also when printing raises. A paragraph whose first child
  is a text node leaves that child with its value trimmed at the start, and prints as the
  paragraph with the trimmed child does: the trimming comes before the emission.
\<close>

theorem paragraph_trim_only_mutation:
  "trimmedOnly False n (snd (printChild e p n))
   \<and> (\<exists>n'. snd (transform e (Obj n)) = Obj n' \<and> trimmedOnly False n n')
   \<and> snd (transform e Null) = Null
   \<and> snd (transform e (Str s)) = Str s
   \<and> (n_type n = ''paragraph'' \<and> n_children n = c # cs \<and> n_type c = ''text'' \<longrightarrow>
        (\<exists>cs'. n_children (snd (printChild e p n)) = set_value (trimStart (n_value c)) c # cs')
        \<and> printChild e p (set_children (set_value (trimStart (n_value c)) c # cs) n)
            = printChild e p n)"
proof (intro conjI impI)
  show "trimmedOnly False n (snd (printChild e p n))"
    by (rule printChild_frame)
  show "\<exists>n'. snd (transform e (Obj n)) = Obj n' \<and> trimmedOnly False n n'"
  proof -
    have "trimmedOnly False n (snd (printNode e (printChild e) None n))"
      by (rule printNode_frame) (rule printChild_frame)
    then show ?thesis
      by (cases "printNode e (printChild e) None n")
         (simp add: transform_def genericPrint_def del: printChild.simps)
  qed
  show "snd (transform e Null) = Null"
    by (simp add: transform_def genericPrint_def)
  show "snd (transform e (Str s)) = Str s"
    by (simp add: transform_def genericPrint_def)
next
  assume a: "n_type n = ''paragraph'' \<and> n_children n = c # cs \<and> n_type c = ''text''"
  let ?c1 = "set_value (trimStart (n_value c)) c"
  have tr: "trimFirstText (n_children n) = ?c1 # cs"
    using a by (simp add: trimFirstText_def)
  have pc: "printChild e p n = printParagraph (printChild e) n"
    using a by (simp add: printNode_def)
  have t1: "n_type ?c1 = ''text''" using a by simp
  show "\<exists>cs'. n_children (snd (printChild e p n)) = ?c1 # cs'"
    unfolding pc snd_printParagraph tr
    by (simp add: snd_pathMap_Cons printChild_text[OF t1] del: pathMap.simps printChild.simps)
next
  assume a: "n_type n = ''paragraph'' \<and> n_children n = c # cs \<and> n_type c = ''text''"
  let ?c1 = "set_value (trimStart (n_value c)) c"
  let ?n1 = "set_children (?c1 # cs) n"
  have tr: "trimFirstText (n_children n) = ?c1 # cs"
    using a by (simp add: trimFirstText_def)
  have tr1: "trimFirstText (n_children ?n1) = ?c1 # cs"
    using a by (simp add: trimFirstText_def)
  have "printParagraph (printChild e) ?n1 = printParagraph (printChild e) n"
    unfolding printParagraph_def tr tr1 by (simp del: printChild.simps)
  moreover have "printChild e p n = printParagraph (printChild e) n"
    using a by (simp add: printNode_def)
  moreover have "printChild e p ?n1 = printParagraph (printChild e) ?n1"
    using a by (simp add: printNode_def)
  ultimately show "printChild e p ?n1 = printChild e p n" by simp
qed

theorem paragraph_trim_only_mutation_witness:
  "n_type sampleParagraph = ''paragraph''
   \<and> n_children sampleParagraph = [mkNode ''text'' ''  a b'' [], mkNode ''text'' ''c'' []]
   \<and> hd (n_children (snd (printChild stdEnv (mkNode ''root'' [] []) sampleParagraph)))
       = mkNode ''text'' ''a b'' []
   \<and> trimmedOnly False sampleParagraph (snd (printChild stdEnv (mkNode ''root'' [] []) sampleParagraph))"
proof -
  have h: "n_type sampleParagraph = ''paragraph''
      \<and> n_children sampleParagraph = mkNode ''text'' ''  a b'' [] # [mkNode ''text'' ''c'' []]
      \<and> n_type (mkNode ''text'' ''  a b'' []) = ''text''"
    by (simp add: sampleParagraph_def mkNode_def)
  have t: "set_value (trimStart (n_value (mkNode ''text'' ''  a b'' []))) (mkNode ''text'' ''  a b'' [])
            = mkNode ''text'' ''a b'' []"
    by (simp add: mkNode_def trimStart_def isSpace_def)
  note inst = paragraph_trim_only_mutation[of sampleParagraph stdEnv "mkNode ''root'' [] []" _
      "mkNode ''text'' ''  a b'' []" "[mkNode ''text'' ''c'' []]"]
  from inst h obtain cs' where
    "n_children (snd (printChild stdEnv (mkNode ''root'' [] []) sampleParagraph))
       = set_value (trimStart (n_value (mkNode ''text'' ''  a b'' []))) (mkNode ''text'' ''  a b'' []) # cs'"
    by blast
  then have "hd (n_children (snd (printChild stdEnv (mkNode ''root'' [] []) sampleParagraph)))
       = mkNode ''text'' ''a b'' []"
    by (simp only: t list.sel)
  then show ?thesis using inst h by simp
qed



end
